theory Spec2Isabelle
  imports Complex_Main "HOL-Library.Multiset"
begin

section \<open>RateLimitManager: quota windows, durable counters, in-memory cache\<close>

text \<open>
  The class \<open>RateLimitManager\<close> keeps a table of configured limits (one per endpoint
  name), a durable counter per (endpoint key, window start) in the SQL table
  \<open>rate_limits\<close>, and an in-memory \<open>Map\<close> from endpoint key to the last computed
  status. Times are integer milliseconds (\<open>Date.now()\<close>); counts are JavaScript
  numbers holding integers and are modelled as \<open>int\<close>.
\<close>

record rate_limit =
  requests :: int
  windowMs :: int

definition basic_limits :: "string \<rightharpoonup> rate_limit" where
  "basic_limits =
     [''userTimeline'' \<mapsto> \<lparr>requests = 75, windowMs = 15 * 60 * 1000\<rparr>,
      ''userLookup'' \<mapsto> \<lparr>requests = 300, windowMs = 15 * 60 * 1000\<rparr>,
      ''searchStream'' \<mapsto> \<lparr>requests = 50, windowMs = 15 * 60 * 1000\<rparr>,
      ''streamRules'' \<mapsto> \<lparr>requests = 25, windowMs = 15 * 60 * 1000\<rparr>]"

definition pro_limits :: "string \<rightharpoonup> rate_limit" where
  "pro_limits =
     [''userTimeline'' \<mapsto> \<lparr>requests = 280, windowMs = 15 * 60 * 1000\<rparr>,
      ''userLookup'' \<mapsto> \<lparr>requests = 900, windowMs = 15 * 60 * 1000\<rparr>,
      ''searchStream'' \<mapsto> \<lparr>requests = 45, windowMs = 15 * 60 * 1000\<rparr>,
      ''streamRules'' \<mapsto> \<lparr>requests = 20, windowMs = 15 * 60 * 1000\<rparr>]"

text \<open>
  The durable store. \<open>pool.execute\<close> either answers or throws; the two ways it throws
  that the code tells apart are a missing table (\<open>ER_NO_SUCH_TABLE\<close>) and anything
  else. \<open>online = False\<close> stands for a store that rejects every statement (no pool,
  connection lost); \<open>rate_limits = None\<close> for a store without the table. A row is
  identified by the unique key (endpoint_key, window_start) and carries
  \<open>requests_count\<close>.
\<close>

datatype db_error = ER_NO_SUCH_TABLE | ER_OTHER

record storage =
  online :: bool
  rate_limits :: "((string \<times> int) \<rightharpoonup> int) option"

record cache_entry =
  c_endpoint :: string
  c_windowStart :: int
  c_count :: int
  c_limit :: int
  c_remaining :: int
  c_resetTime :: int
  c_lastUpdated :: int

text \<open>
  Response headers as \<open>updateFromTwitterHeaders\<close> sees them: each field is the result
  of \<open>parseInt\<close> on the header, \<open>None\<close> standing for \<open>NaN\<close> (header absent or not a
  number).
\<close>

record headers =
  x_rate_limit_remaining :: "int option"
  x_rate_limit_reset :: "int option"
  x_rate_limit_limit :: "int option"

text \<open>
  A queued request. The closure \<open>requestFn\<close> and the \<open>resolve\<close>/\<open>reject\<close> pair of the
  caller's promise are identified by one number.
\<close>

record request =
  requestFn :: nat
  endpoint :: string
  accountId :: "string option"
  priority :: int
  timestamp :: int

text \<open>
  The drain loop is one coroutine; \<open>phase\<close> is where it is suspended. \<open>Admitting r\<close>:
  \<open>r\<close> has been shifted off the queue and the loop awaits \<open>canMakeRequest\<close>;
  \<open>Executing r\<close>: the loop awaits \<open>requestFn()\<close>; \<open>Pausing d\<close>: the loop awaits a timer of
  \<open>d\<close> ms before the next test of the \<open>while\<close> condition; \<open>Idle\<close>: no loop is running.
\<close>

datatype phase = Idle | Admitting request | Executing request | Pausing int

text \<open>
  What the loop does to the outside: it calls a closure, resolves or rejects a caller's
  promise, sleeps.
\<close>

datatype event = Called nat | Resolved nat | Rejected nat | Slept int

text \<open>
  The fields of the class, and three that are not fields: \<open>loop\<close>, the point at which
  the drain loop is suspended; \<open>clock\<close>, the value of \<open>Date.now()\<close>, which a sleep
  advances by its length; \<open>events\<close>, what the loop has done so far. \<open>limits\<close> is the
  table of the current plan, a map on its own keys.
\<close>

record manager =
  limits :: "string \<rightharpoonup> rate_limit"
  store :: storage
  rateLimitCache :: "string \<rightharpoonup> cache_entry"
  requestQueue :: "request list"
  isProcessingQueue :: bool
  loop :: phase
  clock :: int
  events :: "event list"

definition new_manager :: "(string \<rightharpoonup> rate_limit) \<Rightarrow> storage \<Rightarrow> int \<Rightarrow> manager" where
  "new_manager ls db t =
     \<lparr>limits = ls, store = db, rateLimitCache = Map.empty, requestQueue = [],
      isProcessingQueue = False, loop = Idle, clock = t, events = []\<rparr>"

text \<open>\<open>accountId ? `${endpoint}_${accountId}` : endpoint\<close>; the empty string is falsy.\<close>

definition endpoint_key :: "string \<Rightarrow> string option \<Rightarrow> string" where
  "endpoint_key ep acc =
     (case acc of None \<Rightarrow> ep
      | Some a \<Rightarrow> if a = [] then ep else ep @ ''_'' @ a)"

text \<open>\<open>Math.floor(now / limit.windowMs) * limit.windowMs\<close>\<close>

definition window_start :: "rate_limit \<Rightarrow> int \<Rightarrow> int" where
  "window_start l now = (now div windowMs l) * windowMs l"

definition createRateLimitTable :: "storage \<Rightarrow> db_error + storage" where
  "createRateLimitTable db =
     (if \<not> online db then Inl ER_OTHER
      else Inr (db\<lparr>rate_limits :=
                  (case rate_limits db of None \<Rightarrow> Some Map.empty | Some t \<Rightarrow> Some t)\<rparr>))"

text \<open>The \<open>SELECT\<close> of \<open>getCurrentUsage\<close>: the stored count of the row, if there is one.\<close>

definition select_usage :: "storage \<Rightarrow> string \<Rightarrow> int \<Rightarrow> db_error + int option" where
  "select_usage db key ws =
     (if \<not> online db then Inl ER_OTHER
      else case rate_limits db of
             None \<Rightarrow> Inl ER_NO_SUCH_TABLE
           | Some t \<Rightarrow> Inr (t (key, ws)))"

definition getCurrentUsage :: "storage \<Rightarrow> string \<Rightarrow> int \<Rightarrow> (db_error + int) \<times> storage" where
  "getCurrentUsage db key ws =
     (case select_usage db key ws of
        Inr (Some c) \<Rightarrow> (Inr c, db)
      | Inr None \<Rightarrow> (Inr 0, db)
      | Inl ER_NO_SUCH_TABLE \<Rightarrow>
          (case createRateLimitTable db of
             Inr db' \<Rightarrow> (Inr 0, db')
           | Inl e \<Rightarrow> (Inl e, db))
      | Inl e \<Rightarrow> (Inl e, db))"

text \<open>\<open>INSERT ... VALUES (.., 1, ..) ON DUPLICATE KEY UPDATE requests_count = requests_count + 1\<close>\<close>

definition incrementUsage :: "storage \<Rightarrow> string \<Rightarrow> int \<Rightarrow> db_error + storage" where
  "incrementUsage db key ws =
     (if \<not> online db then Inl ER_OTHER
      else case rate_limits db of
             None \<Rightarrow> Inl ER_NO_SUCH_TABLE
           | Some t \<Rightarrow>
               Inr (db\<lparr>rate_limits :=
                      Some (t((key, ws) \<mapsto> (case t (key, ws) of None \<Rightarrow> 1 | Some c \<Rightarrow> c + 1)))\<rparr>))"

text \<open>The count a reader of the table finds for a window (no row counts as 0).\<close>

definition recorded_count :: "storage \<Rightarrow> string \<Rightarrow> int \<Rightarrow> int" where
  "recorded_count db key ws =
     (case rate_limits db of
        None \<Rightarrow> 0
      | Some t \<Rightarrow> (case t (key, ws) of None \<Rightarrow> 0 | Some c \<Rightarrow> c))"

definition canMakeRequest :: "manager \<Rightarrow> int \<Rightarrow> string \<Rightarrow> string option \<Rightarrow> bool \<times> manager" where
  "canMakeRequest m now ep acc =
     (let key = endpoint_key ep acc in
      case limits m ep of
        None \<Rightarrow> (True, m)
      | Some limit \<Rightarrow>
          (let windowStart = window_start limit now in
           case getCurrentUsage (store m) key windowStart of
             (Inl e, db) \<Rightarrow> (False, m\<lparr>store := db\<rparr>)
           | (Inr usage_count, db) \<Rightarrow>
               (let remaining = requests limit - usage_count in
                (remaining > 0,
                 m\<lparr>store := db,
                   rateLimitCache := (rateLimitCache m)(key \<mapsto>
                     \<lparr>c_endpoint = ep, c_windowStart = windowStart, c_count = usage_count,
                      c_limit = requests limit, c_remaining = remaining,
                      c_resetTime = windowStart + windowMs limit, c_lastUpdated = now\<rparr>)\<rparr>))))"

text \<open>\<open>parseInt(h) || null\<close>: \<open>NaN\<close> and 0 both become \<open>null\<close>.\<close>

definition or_null :: "int option \<Rightarrow> int option" where
  "or_null v = (case v of None \<Rightarrow> None | Some n \<Rightarrow> if n = 0 then None else Some n)"

definition updateFromTwitterHeaders ::
  "manager \<Rightarrow> int \<Rightarrow> string \<Rightarrow> headers \<Rightarrow> string option \<Rightarrow> manager" where
  "updateFromTwitterHeaders m now ep h acc =
     (let key = endpoint_key ep acc;
          remaining = or_null (x_rate_limit_remaining h);
          resetTime = or_null (x_rate_limit_reset h);
          limit = or_null (x_rate_limit_limit h)
      in case (remaining, resetTime) of
           (Some rem, Some rst) \<Rightarrow>
             (case rateLimitCache m key of
                None \<Rightarrow> m
              | Some cached \<Rightarrow>
                  m\<lparr>rateLimitCache := (rateLimitCache m)(key \<mapsto>
                      cached\<lparr>c_remaining := rem,
                             c_resetTime := rst * 1000,
                             c_limit := (case limit of None \<Rightarrow> c_limit cached | Some l \<Rightarrow> l),
                             c_lastUpdated := now\<rparr>)\<rparr>)
         | _ \<Rightarrow> m)"

definition recordRequest ::
  "manager \<Rightarrow> int \<Rightarrow> string \<Rightarrow> string option \<Rightarrow> headers option \<Rightarrow> manager" where
  "recordRequest m now ep acc responseHeaders =
     (case limits m ep of
        None \<Rightarrow> m
      | Some limit \<Rightarrow>
          (let windowStart = window_start limit now;
               key = endpoint_key ep acc
           in case incrementUsage (store m) key windowStart of
                Inl e \<Rightarrow> m
              | Inr db \<Rightarrow>
                  (let m1 = m\<lparr>store := db\<rparr>;
                       m2 = (case rateLimitCache m1 key of
                               None \<Rightarrow> m1
                             | Some cached \<Rightarrow>
                                 if c_windowStart cached = windowStart
                                 then m1\<lparr>rateLimitCache := (rateLimitCache m1)(key \<mapsto>
                                        cached\<lparr>c_count := c_count cached + 1,
                                               c_remaining :=
                                                 max 0 (requests limit - (c_count cached + 1)),
                                               c_lastUpdated := now\<rparr>)\<rparr>
                                 else m1)
                   in case responseHeaders of
                        None \<Rightarrow> m2
                      | Some h \<Rightarrow> updateFromTwitterHeaders m2 now ep h acc)))"

definition getWaitTime :: "manager \<Rightarrow> int \<Rightarrow> string \<Rightarrow> string option \<Rightarrow> int" where
  "getWaitTime m now ep acc =
     (case rateLimitCache m (endpoint_key ep acc) of
        None \<Rightarrow> 0
      | Some cached \<Rightarrow>
          if c_remaining cached > 0 then 0 else max 0 (c_resetTime cached - now))"

section \<open>RateLimitManager: the request queue and its drain loop\<close>


text \<open>
  The test of \<open>while (this.requestQueue.length > 0)\<close> followed by
  \<open>this.requestQueue.shift()\<close>, or the two statements after the loop.
\<close>

definition loop_head :: "manager \<Rightarrow> manager" where
  "loop_head m =
     (case requestQueue m of
        [] \<Rightarrow> m\<lparr>isProcessingQueue := False, loop := Idle\<rparr>
      | r # rest \<Rightarrow> m\<lparr>requestQueue := rest, loop := Admitting r\<rparr>)"



text \<open>
  From \<open>await this.canMakeRequest(..)\<close> to the call of \<open>requestFn()\<close>: when the check
  says no, the loop sleeps for \<open>getWaitTime\<close> (if positive) and then calls the request.
\<close>

definition admit :: "manager \<Rightarrow> manager" where
  "admit m =
     (case loop m of
        Admitting r \<Rightarrow>
          (let (canProceed, m1) = canMakeRequest m (clock m) (endpoint r) (accountId r);
               waitTime = (if canProceed then 0
                           else getWaitTime m1 (clock m1) (endpoint r) (accountId r));
               m2 = (if \<not> canProceed \<and> waitTime > 0
                     then m1\<lparr>clock := clock m1 + waitTime,
                             events := events m1 @ [Slept waitTime]\<rparr>
                     else m1)
           in m2\<lparr>loop := Executing r, events := events m2 @ [Called (requestFn r)]\<rparr>)
      | _ \<Rightarrow> m)"

text \<open>
  How \<open>await requestFn()\<close> settles: with a result, whose \<open>headers\<close> may be missing, or
  with an error, of which the loop reads \<open>status\<close> and \<open>code\<close> (\<open>None\<close>: absent or not
  a number).
\<close>

record js_error =
  e_status :: "int option"
  e_code :: "int option"

datatype outcome = Returns "headers option" | Throws js_error

definition is_rate_limit_error :: "js_error \<Rightarrow> bool" where
  "is_rate_limit_error e = (e_status e = Some 429 \<or> e_code e = Some 429)"

text \<open>
  The rest of the loop body once \<open>requestFn()\<close> has settled: record and resolve, then
  the 50 ms delay; or, in the \<open>catch\<close>, the 429 branch (lower the priority, \<open>unshift\<close>,
  wait 1000 ms) or \<open>reject\<close>, after which the loop goes on without a pause.
\<close>

definition settle :: "manager \<Rightarrow> outcome \<Rightarrow> manager" where
  "settle m out =
     (case loop m of
        Executing r \<Rightarrow>
          (case out of
             Returns hdrs \<Rightarrow>
               (let m1 = recordRequest m (clock m) (endpoint r) (accountId r) hdrs
                in m1\<lparr>events := events m1 @ [Resolved (requestFn r)], loop := Pausing 50\<rparr>)
           | Throws e \<Rightarrow>
               if is_rate_limit_error e
               then m\<lparr>requestQueue := r\<lparr>priority := max 0 (priority r - 1)\<rparr> # requestQueue m,
                      loop := Pausing 1000\<rparr>
               else loop_head (m\<lparr>events := events m @ [Rejected (requestFn r)]\<rparr>))
      | _ \<Rightarrow> m)"

definition wake :: "manager \<Rightarrow> manager" where
  "wake m =
     (case loop m of
        Pausing d \<Rightarrow> loop_head (m\<lparr>clock := clock m + d, events := events m @ [Slept d]\<rparr>)
      | _ \<Rightarrow> m)"

text \<open>
  Running the loop with no further caller interfering, for at most \<open>n\<close> resumptions;
  \<open>env\<close> tells how each closure settles.
\<close>

fun drain :: "nat \<Rightarrow> (nat \<Rightarrow> outcome) \<Rightarrow> manager \<Rightarrow> manager" where
  "drain 0 env m = m"
| "drain (Suc n) env m =
     (case loop m of
        Idle \<Rightarrow> m
      | Admitting r \<Rightarrow> drain n env (admit m)
      | Executing r \<Rightarrow> drain n env (settle m (env (requestFn r)))
      | Pausing d \<Rightarrow> drain n env (wake m))"



text \<open>The closures called so far, in the order of the calls.\<close>

fun called :: "event list \<Rightarrow> nat list" where
  "called [] = []"
| "called (Called i # es) = i # called es"
| "called (_ # es) = called es"


text \<open>
  What the specification would have admission use once a response carries the
  provider's figures: the provider's count (limit minus remaining) and its verdict
  (quota remains).
\<close>

definition spec_provider_count :: "headers \<Rightarrow> int option" where
  "spec_provider_count h =
     (case (x_rate_limit_limit h, x_rate_limit_remaining h) of
        (Some l, Some r) \<Rightarrow> Some (l - r)
      | _ \<Rightarrow> None)"

definition spec_provider_admits :: "headers \<Rightarrow> bool" where
  "spec_provider_admits h =
     (case x_rate_limit_remaining h of Some r \<Rightarrow> r > 0 | None \<Rightarrow> False)"

text \<open>
  Sequences of calls of \<open>canMakeRequest\<close> and \<open>recordRequest\<close> for one endpoint and
  account, each with the time at which it is made; between two calls the store may go
  away or come back (\<open>StoreOnline\<close>).
\<close>

datatype call = CanMakeRequest | RecordRequest "headers option" | StoreOnline bool

fun run_call :: "manager \<Rightarrow> string \<Rightarrow> string option \<Rightarrow> int \<times> call \<Rightarrow> manager" where
  "run_call m ep acc (t, CanMakeRequest) = snd (canMakeRequest m t ep acc)"
| "run_call m ep acc (t, RecordRequest h) = recordRequest m t ep acc h"
| "run_call m ep acc (t, StoreOnline b) = m\<lparr>store := (store m)\<lparr>online := b\<rparr>\<rparr>"

fun run_calls :: "manager \<Rightarrow> string \<Rightarrow> string option \<Rightarrow> (int \<times> call) list \<Rightarrow> manager" where
  "run_calls m ep acc [] = m"
| "run_calls m ep acc (c # cs) = run_calls (run_call m ep acc c) ep acc cs"

text \<open>
  A sequence in which every recording follows an admission check that returned true,
  with no other check or recording in between; \<open>a\<close> tells whether such a check is
  pending.
\<close>

fun admitted_calls ::
  "bool \<Rightarrow> manager \<Rightarrow> string \<Rightarrow> string option \<Rightarrow> (int \<times> call) list \<Rightarrow> bool" where
  "admitted_calls a m ep acc [] = True"
| "admitted_calls a m ep acc ((t, CanMakeRequest) # cs) =
     admitted_calls (fst (canMakeRequest m t ep acc))
       (run_call m ep acc (t, CanMakeRequest)) ep acc cs"
| "admitted_calls a m ep acc ((t, RecordRequest h) # cs) =
     (a \<and> admitted_calls False (run_call m ep acc (t, RecordRequest h)) ep acc cs)"
| "admitted_calls a m ep acc ((t, StoreOnline b) # cs) =
     admitted_calls a (run_call m ep acc (t, StoreOnline b)) ep acc cs"

text \<open>All calls of a sequence fall into the window that starts at \<open>ws\<close>.\<close>

fun in_window :: "rate_limit \<Rightarrow> int \<Rightarrow> (int \<times> call) list \<Rightarrow> bool" where
  "in_window l ws [] = True"
| "in_window l ws ((t, c) # cs) = (window_start l t = ws \<and> in_window l ws cs)"

section \<open>TweetCache\<close>

text \<open>
  A tweet as the cache reads it: its id and the time value of
  \<open>new Date(tweet.created_at)\<close> in ms (\<open>None\<close>: an invalid date, which compares false
  with everything).
\<close>

record tweet =
  tweet_id :: string
  created_at :: "int option"

record tweet_cache =
  cache :: "string \<rightharpoonup> tweet list"
  lastFetch :: "string \<rightharpoonup> int"


definition MAX_TWEETS_PER_ACCOUNT :: nat where
  "MAX_TWEETS_PER_ACCOUNT = 50"

text \<open>\<open>new Date(t.created_at) > new Date(Date.now() - 24 * 60 * 60 * 1000)\<close>\<close>

definition within_24h :: "int \<Rightarrow> tweet \<Rightarrow> bool" where
  "within_24h now t =
     (case created_at t of None \<Rightarrow> False | Some c \<Rightarrow> c > now - 24 * 60 * 60 * 1000)"


definition time_value :: "tweet \<Rightarrow> int" where
  "time_value t = (case created_at t of None \<Rightarrow> 0 | Some c \<Rightarrow> c)"

definition cacheTweets :: "tweet_cache \<Rightarrow> int \<Rightarrow> string \<Rightarrow> tweet list \<Rightarrow> tweet_cache" where
  "cacheTweets tc now username tweets =
     (if tweets = [] then tc
      else let freshTweets =
                 take MAX_TWEETS_PER_ACCOUNT
                   (sort_key (\<lambda>t. - time_value t) (filter (within_24h now) tweets))
           in tc\<lparr>cache := (cache tc)(username \<mapsto> freshTweets),
                 lastFetch := (lastFetch tc)(username \<mapsto> now)\<rparr>)"




section \<open>TwitterService.fetchLatestTweets, as TrackerService sees it\<close>

text \<open>
  The whole body of \<open>fetchLatestTweets\<close> is one \<open>try\<close> block whose \<open>catch\<close> returns
  \<open>[]\<close>. \<open>api_result\<close> is what happens inside the block (cache hit, lookups and the
  queued timeline request): it throws, or it yields tweets. \<open>fetch_result\<close> is how the
  awaited call settles for the caller.
\<close>

datatype api_result = ApiError | ApiTweets "tweet list"

datatype fetch_result = Rejected | Returned "tweet list"

definition fetchLatestTweets :: "api_result \<Rightarrow> fetch_result" where
  "fetchLatestTweets a = (case a of ApiError \<Rightarrow> Returned [] | ApiTweets ts \<Rightarrow> Returned ts)"

section \<open>TrackerService: on-demand sync and backfill\<close>

record account_progress =
  username :: string
  lastBackfillId :: "string option"
  completed :: bool

record backfill_state =
  currentAccount :: nat
  totalTweetsBackfilled :: nat
  lastBackfillTime :: int
  accountProgress :: "account_progress list"

text \<open>
  \<open>fetched\<close> is not a field of the class: it lists the user names passed to
  \<open>fetchLatestTweets\<close>, in the order of the calls. \<open>now\<close> is \<open>Date.now()\<close>.
\<close>

record tracker =
  accountSync :: "string \<rightharpoonup> int"
  isRunning :: bool
  backfillState :: backfill_state
  now :: int
  fetched :: "string list"

text \<open>\<open>this.backfillState.accountProgress\<close>\<close>

definition progress :: "tracker \<Rightarrow> account_progress list" where
  "progress tr = accountProgress (backfillState tr)"









text \<open>
  What one backfill fetch meets: the fetch, for which of the returned tweets
  \<open>saveTweetsToDb\<close> does not throw, and whether \<open>stop()\<close> is called meanwhile.
\<close>

record backfill_env =
  b_api :: api_result
  b_saved :: "tweet \<Rightarrow> bool"
  b_stop :: bool

datatype loop_status = Looping | TypeError | Done

text \<open>
  One pass of the \<open>while\<close> loop of \<open>runSmartBackfill\<close> for an account that is not
  completed: the \<open>try\<close>/\<open>catch\<close> around the fetch, the step to the next account and the
  200 ms delay. It returns the new \<open>requestsUsed\<close>. The \<open>k\<close>-th fetch of the tracker's
  life meets \<open>env k\<close>.
\<close>

definition backfill_fetch :: "(nat \<Rightarrow> backfill_env) \<Rightarrow> nat \<Rightarrow> tracker \<Rightarrow> nat \<times> tracker" where
  "backfill_fetch env requestsUsed tr =
     (let bs = backfillState tr;
          accountInfo = accountProgress bs ! currentAccount bs;
          next = (currentAccount bs + 1) mod length (accountProgress bs);
          e = env (length (fetched tr));
          tr1 = tr\<lparr>fetched := fetched tr @ [username accountInfo],
                   isRunning := isRunning tr \<and> \<not> b_stop e\<rparr>
      in case fetchLatestTweets (b_api e) of
           Rejected \<Rightarrow>
             (requestsUsed + 1,
              tr1\<lparr>backfillState := bs\<lparr>currentAccount := next\<rparr>, now := now tr1 + 200\<rparr>)
         | Returned oldTweets \<Rightarrow>
             (let bs' =
                (if oldTweets \<noteq> []
                 then bs\<lparr>totalTweetsBackfilled :=
                           totalTweetsBackfilled bs + length (filter (b_saved e) oldTweets),
                         accountProgress := (accountProgress bs)[currentAccount bs :=
                           accountInfo\<lparr>lastBackfillId := Some (tweet_id (last oldTweets))\<rparr>]\<rparr>
                 else bs\<lparr>accountProgress := (accountProgress bs)[currentAccount bs :=
                           accountInfo\<lparr>completed := True\<rparr>]\<rparr>)
              in (requestsUsed + 2,
                  tr1\<lparr>backfillState := bs'\<lparr>currentAccount := next\<rparr>, now := now tr1 + 200\<rparr>)))"

text \<open>
  The \<open>while\<close> loop of \<open>runSmartBackfill\<close>, for at most \<open>fuel\<close> passes. \<open>TypeError\<close>:
  \<open>accountProgress[currentAccount]\<close> is \<open>undefined\<close> and reading \<open>.completed\<close> throws.
\<close>

fun backfill_loop ::
  "nat \<Rightarrow> (nat \<Rightarrow> backfill_env) \<Rightarrow> rat \<Rightarrow> nat \<Rightarrow> nat \<Rightarrow> tracker \<Rightarrow> loop_status \<times> nat \<times> tracker" where
  "backfill_loop 0 env maxBackfillRequests startAccount requestsUsed tr =
     (Looping, requestsUsed, tr)"
| "backfill_loop (Suc fuel) env maxBackfillRequests startAccount requestsUsed tr =
     (if \<not> (of_nat requestsUsed < maxBackfillRequests \<and> isRunning tr)
      then (Done, requestsUsed, tr)
      else
        let bs = backfillState tr; n = length (accountProgress bs) in
        if currentAccount bs \<ge> n then (TypeError, requestsUsed, tr)
        else
          let accountInfo = accountProgress bs ! currentAccount bs;
              next = (currentAccount bs + 1) mod n
          in if completed accountInfo then
               if next = startAccount
               then (Done, requestsUsed,
                     tr\<lparr>backfillState := bs\<lparr>currentAccount := next,
                           accountProgress := map (\<lambda>acc. acc\<lparr>completed := False\<rparr>)
                                                  (accountProgress bs)\<rparr>\<rparr>)
               else backfill_loop fuel env maxBackfillRequests startAccount requestsUsed
                      (tr\<lparr>backfillState := bs\<lparr>currentAccount := next\<rparr>\<rparr>)
             else
               (case backfill_fetch env requestsUsed tr of
                  (requestsUsed', tr') \<Rightarrow>
                    backfill_loop fuel env maxBackfillRequests startAccount requestsUsed' tr'))"

text \<open>
  \<open>runSmartBackfill\<close> around its loop. The budget \<open>maxBackfillRequests\<close> is computed by
  the method from the usage figures of \<open>twitterService.getApiUsage()\<close>; it is taken as
  given here.
\<close>

definition runSmartBackfill ::
  "nat \<Rightarrow> (nat \<Rightarrow> backfill_env) \<Rightarrow> rat \<Rightarrow> tracker \<Rightarrow> loop_status \<times> tracker" where
  "runSmartBackfill fuel env maxBackfillRequests tr =
     (if \<not> isRunning tr then (Done, tr)
      else if maxBackfillRequests < 5 then (Done, tr)
      else case backfill_loop fuel env maxBackfillRequests
                  (currentAccount (backfillState tr)) 0 tr of
             (Done, used, tr') \<Rightarrow>
               (Done, tr'\<lparr>backfillState := (backfillState tr')\<lparr>lastBackfillTime := now tr'\<rparr>\<rparr>)
           | (st, used, tr') \<Rightarrow> (st, tr'))"

section \<open>States and inputs used as examples\<close>

definition db_empty :: storage where
  "db_empty = \<lparr>online = True, rate_limits = Some Map.empty\<rparr>"

definition db_offline :: storage where
  "db_offline = \<lparr>online = False, rate_limits = Some Map.empty\<rparr>"

definition m_fresh :: manager where
  "m_fresh = new_manager pro_limits db_empty 0"

definition m_offline :: manager where
  "m_offline = new_manager pro_limits db_offline 0"

definition m_roll :: manager where
  "m_roll = new_manager pro_limits
     \<lparr>online = True, rate_limits = Some [(''userTimeline'', 0) \<mapsto> 279]\<rparr> 0"

definition m_full :: manager where
  "m_full = new_manager pro_limits
     \<lparr>online = True, rate_limits = Some [(''streamRules'', 0) \<mapsto> 20]\<rparr> 5"




definition req_rules :: request where
  "req_rules = \<lparr>requestFn = 7, endpoint = ''streamRules'', accountId = None, priority = 0,
                timestamp = 0\<rparr>"





definition checked_calls :: "(int \<times> call) list" where
  "checked_calls = [(0, CanMakeRequest), (1, RecordRequest None), (2, StoreOnline False),
                    (3, CanMakeRequest), (4, StoreOnline True), (5, CanMakeRequest),
                    (6, StoreOnline False), (7, RecordRequest None), (8, StoreOnline True),
                    (9, CanMakeRequest), (10, RecordRequest None)]"

definition m_admitting :: manager where
  "m_admitting = m_fresh\<lparr>isProcessingQueue := True, loop := Admitting req_rules\<rparr>"

definition m_admitting_full :: manager where
  "m_admitting_full = m_full\<lparr>isProcessingQueue := True, loop := Admitting req_rules\<rparr>"

definition m_near :: manager where
  "m_near = snd (canMakeRequest
     (new_manager pro_limits \<lparr>online = True, rate_limits = Some [(''streamRules'', 0) \<mapsto> 19]\<rparr> 0)
     0 ''streamRules'' None)"

definition provider_headers :: headers where
  "provider_headers =
     \<lparr>x_rate_limit_remaining = Some 10, x_rate_limit_reset = Some 1800,
      x_rate_limit_limit = Some 25\<rparr>"

definition tweet_old :: tweet where
  "tweet_old = \<lparr>tweet_id = ''1001'', created_at = Some 1000\<rparr>"









definition acct :: "string \<Rightarrow> bool \<Rightarrow> account_progress" where
  "acct u c = \<lparr>username = u, lastBackfillId = None, completed = c\<rparr>"

definition tr_backfill :: tracker where
  "tr_backfill =
     \<lparr>accountSync = Map.empty, isRunning = True,
      backfillState = \<lparr>currentAccount = 0, totalTweetsBackfilled = 0, lastBackfillTime = 0,
                        accountProgress = [acct ''cz_binance'' False, acct ''CookerFlips'' True,
                                           acct ''ShockedJS'' False]\<rparr>,
      now = 1700000000000, fetched = []\<rparr>"

definition env_backfill :: "nat \<Rightarrow> backfill_env" where
  "env_backfill k =
     \<lparr>b_api = (if k = 0 then ApiTweets [] else ApiTweets [tweet_old]),
      b_saved = (\<lambda>t. True), b_stop = False\<rparr>"

section \<open>Facts about the durable counter\<close>

lemma getCurrentUsage_count:
  "getCurrentUsage db key ws = (Inr c, db') \<Longrightarrow>
     c = recorded_count db key ws \<and> (\<forall>k w. recorded_count db' k w = recorded_count db k w)"
  by (auto simp: getCurrentUsage_def select_usage_def createRateLimitTable_def recorded_count_def
           split: option.splits sum.splits db_error.splits if_splits)

lemma getCurrentUsage_throws:
  "getCurrentUsage db key ws = (Inl e, db') \<Longrightarrow> \<not> online db \<and> db' = db"
  by (auto simp: getCurrentUsage_def select_usage_def createRateLimitTable_def
           split: option.splits sum.splits db_error.splits if_splits)

lemma incrementUsage_count:
  "incrementUsage db key ws = Inr db' \<Longrightarrow>
     recorded_count db' key ws = recorded_count db key ws + 1"
  by (auto simp: incrementUsage_def recorded_count_def split: option.splits if_splits)

lemma limits_canMakeRequest [simp]: "limits (snd (canMakeRequest m t ep acc)) = limits m"
  by (auto simp: canMakeRequest_def Let_def split: option.splits prod.splits sum.splits)

lemma limits_updateFromTwitterHeaders [simp]:
  "limits (updateFromTwitterHeaders m t ep h acc) = limits m"
  by (auto simp: updateFromTwitterHeaders_def Let_def split: option.splits prod.splits)

lemma store_updateFromTwitterHeaders [simp]:
  "store (updateFromTwitterHeaders m t ep h acc) = store m"
  by (auto simp: updateFromTwitterHeaders_def Let_def split: option.splits prod.splits)

lemma limits_recordRequest [simp]: "limits (recordRequest m t ep acc h) = limits m"
  by (auto simp: recordRequest_def Let_def split: option.splits sum.splits)

lemma store_recordRequest:
  "limits m ep = Some l \<Longrightarrow>
   store (recordRequest m t ep acc h) =
     (case incrementUsage (store m) (endpoint_key ep acc) (window_start l t) of
        Inl e \<Rightarrow> store m | Inr db \<Rightarrow> db)"
  by (auto simp: recordRequest_def Let_def split: option.splits sum.splits)

lemma canMakeRequest_count:
  assumes "limits m ep = Some l"
  shows "recorded_count (store (snd (canMakeRequest m t ep acc))) k w = recorded_count (store m) k w"
    and "fst (canMakeRequest m t ep acc) \<Longrightarrow>
           recorded_count (store m) (endpoint_key ep acc) (window_start l t) < requests l"
  using assms
  by (auto simp: canMakeRequest_def Let_def split: prod.splits sum.splits
           dest: getCurrentUsage_count getCurrentUsage_throws)

lemma recordRequest_count:
  assumes "limits m ep = Some l"
  shows "recorded_count (store (recordRequest m t ep acc h)) (endpoint_key ep acc) (window_start l t)
           \<le> recorded_count (store m) (endpoint_key ep acc) (window_start l t) + 1"
  using assms by (auto simp: store_recordRequest split: sum.splits dest: incrementUsage_count)

lemma canMakeRequest_online:
  assumes "limits m ep = Some l" "online (store m)"
  shows "\<exists>db. canMakeRequest m t ep acc =
     (recorded_count (store m) (endpoint_key ep acc) (window_start l t) < requests l,
      m\<lparr>store := db,
        rateLimitCache := (rateLimitCache m)(endpoint_key ep acc \<mapsto>
          \<lparr>c_endpoint = ep, c_windowStart = window_start l t,
           c_count = recorded_count (store m) (endpoint_key ep acc) (window_start l t),
           c_limit = requests l,
           c_remaining = requests l - recorded_count (store m) (endpoint_key ep acc) (window_start l t),
           c_resetTime = window_start l t + windowMs l, c_lastUpdated = t\<rparr>)\<rparr>)"
proof (cases "getCurrentUsage (store m) (endpoint_key ep acc) (window_start l t)")
  case (Pair res db)
  show ?thesis
  proof (cases res)
    case (Inl e)
    then show ?thesis using Pair assms(2) getCurrentUsage_throws by blast
  next
    case (Inr c)
    then have "c = recorded_count (store m) (endpoint_key ep acc) (window_start l t)"
      using Pair getCurrentUsage_count by blast
    then show ?thesis using Pair Inr assms(1)
      by (auto simp: canMakeRequest_def Let_def)
  qed
qed

lemma window_start_bounds:
  "0 < windowMs l \<Longrightarrow> window_start l t \<le> t \<and> t < window_start l t + windowMs l"
proof -
  assume w: "0 < windowMs l"
  have "t = (t div windowMs l) * windowMs l + t mod windowMs l" by simp
  moreover have "0 \<le> t mod windowMs l \<and> t mod windowMs l < windowMs l" using w by simp
  ultimately show ?thesis unfolding window_start_def by linarith
qed

lemma window_start_after:
  assumes "0 < windowMs l" "window_start l t + windowMs l \<le> t'"
  shows "window_start l t + windowMs l \<le> window_start l t'"
proof -
  let ?w = "windowMs l"
  have "(t div ?w + 1) * ?w \<le> t'" using assms by (simp add: window_start_def algebra_simps)
  then have "t div ?w + 1 \<le> t' div ?w"
    using assms(1) by (metis pos_imp_zdiv_nonneg_iff zdiv_mono1 nonzero_mult_div_cancel_right less_irrefl)
  then have "(t div ?w + 1) * ?w \<le> (t' div ?w) * ?w"
    using assms(1) by (simp add: mult_right_mono)
  then show ?thesis by (simp add: window_start_def algebra_simps)
qed

lemma admitted_calls_bound:
  assumes "limits m ep = Some l"
      and "in_window l ws cs"
      and "admitted_calls a m ep acc cs"
      and "recorded_count (store m) (endpoint_key ep acc) ws \<le> requests l"
      and "a \<longrightarrow> recorded_count (store m) (endpoint_key ep acc) ws < requests l"
  shows "recorded_count (store (run_calls m ep acc (take n cs))) (endpoint_key ep acc) ws \<le> requests l"
  using assms
proof (induction cs arbitrary: m a n)
  case Nil
  then show ?case by simp
next
  case (Cons c cs)
  obtain t k where c: "c = (t, k)" by (cases c)
  show ?case
  proof (cases n)
    case 0
    then show ?thesis using Cons.prems by simp
  next
    case (Suc n')
    have ws: "window_start l t = ws" and win: "in_window l ws cs"
      using Cons.prems(2) c by simp_all
    show ?thesis
    proof (cases k)
      case CanMakeRequest
      let ?m' = "run_call m ep acc (t, CanMakeRequest)"
      have "recorded_count (store (run_calls ?m' ep acc (take n' cs))) (endpoint_key ep acc) ws \<le> requests l"
      proof (rule Cons.IH [where a = "fst (canMakeRequest m t ep acc)"])
        show "limits ?m' ep = Some l" using Cons.prems(1) by simp
        show "in_window l ws cs" by (rule win)
        show "admitted_calls (fst (canMakeRequest m t ep acc)) ?m' ep acc cs"
          using Cons.prems(3) c CanMakeRequest by simp
        show "recorded_count (store ?m') (endpoint_key ep acc) ws \<le> requests l"
          using Cons.prems(1,4) by (simp add: canMakeRequest_count(1))
        show "fst (canMakeRequest m t ep acc) \<longrightarrow>
                recorded_count (store ?m') (endpoint_key ep acc) ws < requests l"
          using Cons.prems(1) canMakeRequest_count(2) [of m ep l t acc] ws
          by (simp add: canMakeRequest_count(1))
      qed
      then show ?thesis using c CanMakeRequest Suc by simp
    next
      case (RecordRequest h)
      let ?m' = "run_call m ep acc (t, RecordRequest h)"
      have a: a using Cons.prems(3) c RecordRequest by simp
      have "recorded_count (store (run_calls ?m' ep acc (take n' cs))) (endpoint_key ep acc) ws \<le> requests l"
      proof (rule Cons.IH [where a = False])
        show "limits ?m' ep = Some l" using Cons.prems(1) by simp
        show "in_window l ws cs" by (rule win)
        show "admitted_calls False ?m' ep acc cs"
          using Cons.prems(3) c RecordRequest by simp
        show "recorded_count (store ?m') (endpoint_key ep acc) ws \<le> requests l"
          using recordRequest_count [OF Cons.prems(1), of t acc h] Cons.prems(5) a ws by simp
        show "False \<longrightarrow> recorded_count (store ?m') (endpoint_key ep acc) ws < requests l"
          by simp
      qed
      then show ?thesis using c RecordRequest Suc by simp
    next
      case (StoreOnline b)
      let ?m' = "run_call m ep acc (t, StoreOnline b)"
      have "recorded_count (store (run_calls ?m' ep acc (take n' cs))) (endpoint_key ep acc) ws \<le> requests l"
      proof (rule Cons.IH [where a = a])
        show "limits ?m' ep = Some l" using Cons.prems(1) by simp
        show "in_window l ws cs" by (rule win)
        show "admitted_calls a ?m' ep acc cs"
          using Cons.prems(3) c StoreOnline by simp
        show "recorded_count (store ?m') (endpoint_key ep acc) ws \<le> requests l"
          using Cons.prems(4) by (simp add: recorded_count_def)
        show "a \<longrightarrow> recorded_count (store ?m') (endpoint_key ep acc) ws < requests l"
          using Cons.prems(5) by (simp add: recorded_count_def)
      qed
      then show ?thesis using c StoreOnline Suc by simp
    qed
  qed
qed

section \<open>Facts about the drain loop\<close>

lemma clock_canMakeRequest [simp]: "clock (snd (canMakeRequest m t ep acc)) = clock m"
  by (auto simp: canMakeRequest_def Let_def split: option.splits prod.splits sum.splits)

lemma events_canMakeRequest [simp]: "events (snd (canMakeRequest m t ep acc)) = events m"
  by (auto simp: canMakeRequest_def Let_def split: option.splits prod.splits sum.splits)

lemma queue_canMakeRequest [simp]:
  "requestQueue (snd (canMakeRequest m t ep acc)) = requestQueue m"
  by (auto simp: canMakeRequest_def Let_def split: option.splits prod.splits sum.splits)

lemma flag_canMakeRequest [simp]:
  "isProcessingQueue (snd (canMakeRequest m t ep acc)) = isProcessingQueue m"
  by (auto simp: canMakeRequest_def Let_def split: option.splits prod.splits sum.splits)

lemma sched_updateFromTwitterHeaders [simp]:
  "clock (updateFromTwitterHeaders m t ep h acc) = clock m"
  "events (updateFromTwitterHeaders m t ep h acc) = events m"
  "requestQueue (updateFromTwitterHeaders m t ep h acc) = requestQueue m"
  "isProcessingQueue (updateFromTwitterHeaders m t ep h acc) = isProcessingQueue m"
  "loop (updateFromTwitterHeaders m t ep h acc) = loop m"
  by (auto simp: updateFromTwitterHeaders_def Let_def split: option.splits prod.splits)

lemma sched_recordRequest [simp]:
  "clock (recordRequest m t ep acc h) = clock m"
  "events (recordRequest m t ep acc h) = events m"
  "requestQueue (recordRequest m t ep acc h) = requestQueue m"
  "isProcessingQueue (recordRequest m t ep acc h) = isProcessingQueue m"
  by (auto simp: recordRequest_def Let_def split: option.splits sum.splits)

lemma admit_queue [simp]: "requestQueue (admit m) = requestQueue m"
  by (simp add: admit_def Let_def case_prod_beta split: phase.splits)

lemma admit_flag [simp]: "isProcessingQueue (admit m) = isProcessingQueue m"
  by (simp add: admit_def Let_def case_prod_beta split: phase.splits)


lemma admit_store:
  "loop m = Admitting r \<Longrightarrow>
   store (admit m) = store (snd (canMakeRequest m (clock m) (endpoint r) (accountId r)))"
  by (simp add: admit_def Let_def case_prod_beta split: phase.splits)

lemma called_append [simp]: "called (xs @ ys) = called xs @ called ys"
  by (induction xs rule: called.induct) auto


lemma admit_allowed:
  assumes "loop m = Admitting r"
      and "fst (canMakeRequest m (clock m) (endpoint r) (accountId r))"
  shows "clock (admit m) = clock m \<and>
         events (admit m) = events m @ [Called (requestFn r)] \<and>
         loop (admit m) = Executing r"
  using assms by (simp add: admit_def Let_def case_prod_beta)

lemma admit_refused:
  assumes "loop m = Admitting r"
      and "limits m (endpoint r) = Some l"
      and "0 < windowMs l"
      and "online (store m)"
      and "\<not> fst (canMakeRequest m (clock m) (endpoint r) (accountId r))"
  shows "clock (admit m) = window_start l (clock m) + windowMs l \<and>
         events (admit m) = events m @ [Slept (window_start l (clock m) + windowMs l - clock m),
                                         Called (requestFn r)] \<and>
         loop (admit m) = Executing r"
proof -
  let ?c = "recorded_count (store m) (endpoint_key (endpoint r) (accountId r)) (window_start l (clock m))"
  obtain db where cm: "canMakeRequest m (clock m) (endpoint r) (accountId r) =
     (?c < requests l,
      m\<lparr>store := db,
        rateLimitCache := (rateLimitCache m)(endpoint_key (endpoint r) (accountId r) \<mapsto>
          \<lparr>c_endpoint = endpoint r, c_windowStart = window_start l (clock m),
           c_count = ?c, c_limit = requests l, c_remaining = requests l - ?c,
           c_resetTime = window_start l (clock m) + windowMs l, c_lastUpdated = clock m\<rparr>)\<rparr>)"
    using canMakeRequest_online [OF assms(2,4)] by blast
  have full: "\<not> ?c < requests l" using assms(5) cm by simp
  have pos: "0 < window_start l (clock m) + windowMs l - clock m"
    using window_start_bounds [OF assms(3), of "clock m"] by linarith
  show ?thesis
    using assms(1) cm full pos by (simp add: admit_def Let_def getWaitTime_def)
qed

text \<open>
  When the store cannot be read and the cache has no entry for the key, the check
  returns false, \<open>getWaitTime\<close> is 0 and the loop calls the request at once.
\<close>

lemma admit_unreadable_store:
  assumes "loop m = Admitting r"
      and "limits m (endpoint r) = Some l"
      and "\<not> online (store m)"
      and "rateLimitCache m (endpoint_key (endpoint r) (accountId r)) = None"
  shows "\<not> fst (canMakeRequest m (clock m) (endpoint r) (accountId r)) \<and>
         clock (admit m) = clock m \<and>
         events (admit m) = events m @ [Called (requestFn r)]"
  using assms
  by (simp add: admit_def canMakeRequest_def getCurrentUsage_def select_usage_def
        getWaitTime_def Let_def)



lemma drain_idle [simp]: "loop m = Idle \<Longrightarrow> drain n env m = m"
  by (cases n) simp_all








section \<open>Facts about the provider headers\<close>

lemma canMakeRequest_decision:
  "limits m' = limits m \<Longrightarrow> store m' = store m \<Longrightarrow>
   fst (canMakeRequest m' t ep acc) = fst (canMakeRequest m t ep acc)"
  by (simp add: canMakeRequest_def Let_def split: option.splits prod.splits sum.splits)

lemma store_recordRequest_headers:
  "store (recordRequest m t ep acc h) = store (recordRequest m t ep acc None)"
  by (simp add: recordRequest_def Let_def split: option.splits sum.splits)

lemma recordRequest_cache_local:
  assumes "limits m ep = Some l"
      and "incrementUsage (store m) (endpoint_key ep acc) (window_start l t) = Inr db"
      and "rateLimitCache m (endpoint_key ep acc) = Some ce"
  shows "rateLimitCache (recordRequest m t ep acc None) (endpoint_key ep acc) =
           Some (if c_windowStart ce = window_start l t
                 then ce\<lparr>c_count := c_count ce + 1,
                         c_remaining := max 0 (requests l - (c_count ce + 1)),
                         c_lastUpdated := t\<rparr>
                 else ce)"
  using assms by (simp add: recordRequest_def Let_def)

lemma recordRequest_cache_headers:
  assumes "limits m ep = Some l"
      and "incrementUsage (store m) (endpoint_key ep acc) (window_start l t) = Inr db"
      and "rateLimitCache m (endpoint_key ep acc) = Some ce"
      and "x_rate_limit_remaining h = Some rem" and "rem \<noteq> 0"
      and "x_rate_limit_reset h = Some rst" and "rst \<noteq> 0"
      and "rateLimitCache (recordRequest m t ep acc None) (endpoint_key ep acc) = Some ce0"
  shows "rateLimitCache (recordRequest m t ep acc (Some h)) (endpoint_key ep acc) =
           Some (ce0\<lparr>c_remaining := rem, c_resetTime := rst * 1000,
                     c_limit := (case or_null (x_rate_limit_limit h) of
                                   None \<Rightarrow> c_limit ce0 | Some pl \<Rightarrow> pl),
                     c_lastUpdated := t\<rparr>)"
  using assms
  by (simp add: recordRequest_def Let_def updateFromTwitterHeaders_def or_null_def
           split: if_splits)

section \<open>Facts about the tweet cache\<close>




section \<open>Facts about sync and backfill\<close>


lemma fetchLatestTweets_never_rejects: "fetchLatestTweets a \<noteq> Rejected"
  by (simp add: fetchLatestTweets_def split: api_result.splits)

lemma map_username_update:
  "i < length ap \<Longrightarrow> username x = username (ap ! i) \<Longrightarrow>
   map username (ap[i := x]) = map username ap"
  by (simp add: map_update list_update_same_conv)

lemma backfill_fetch_effect:
  assumes "backfill_fetch env used tr = (used', tr')"
      and "currentAccount (backfillState tr) < length (progress tr)"
  shows "fetched tr' = fetched tr @ [username (progress tr ! currentAccount (backfillState tr))]"
    and "map username (progress tr') = map username (progress tr)"
    and "i \<noteq> currentAccount (backfillState tr) \<Longrightarrow> progress tr' ! i = progress tr ! i"
    and "fetchLatestTweets (b_api (env (length (fetched tr)))) = Returned [] \<Longrightarrow>
           completed (progress tr' ! currentAccount (backfillState tr))"
  using assms
  by (auto simp: backfill_fetch_def Let_def progress_def map_username_update
           split: fetch_result.splits if_splits)

lemma backfill_loop_skips_completed:
  assumes "distinct (map username (progress tr))"
      and "i < length (progress tr)"
      and "completed (progress tr ! i)"
      and "backfill_loop fuel env mx start used tr = (st, used', tr')"
  shows "take (length (fetched tr)) (fetched tr') = fetched tr \<and>
         username (progress tr ! i) \<notin> set (drop (length (fetched tr)) (fetched tr')) \<and>
         map username (progress tr') = map username (progress tr) \<and>
         (completed (progress tr' ! i) \<or> (\<forall>j < length (progress tr'). \<not> completed (progress tr' ! j)))"
  using assms
proof (induction fuel arbitrary: used tr)
  case 0
  then show ?case by simp
next
  case (Suc fuel)
  let ?bs = "backfillState tr"
  let ?c = "currentAccount ?bs"
  let ?n = "length (progress tr)"
  let ?next = "(?c + 1) mod ?n"
  show ?case
  proof (cases "of_nat used < mx \<and> isRunning tr")
    case False
    then have "tr' = tr" using Suc.prems(4) by auto
    then show ?thesis using Suc.prems(3) by simp
  next
    case cond: True
    show ?thesis
    proof (cases "?c < ?n")
      case False
      then have "tr' = tr" using Suc.prems(4) cond by (auto simp: progress_def Let_def)
      then show ?thesis using Suc.prems(3) by simp
    next
      case inb: True
      show ?thesis
      proof (cases "completed (progress tr ! ?c)")
        case True
        show ?thesis
        proof (cases "?next = start")
          case True
          then have "tr' = tr\<lparr>backfillState := ?bs\<lparr>currentAccount := ?next,
                           accountProgress := map (\<lambda>acc. acc\<lparr>completed := False\<rparr>) (progress tr)\<rparr>\<rparr>"
            using Suc.prems(4) cond inb \<open>completed (progress tr ! ?c)\<close>
            by (auto simp: progress_def Let_def)
          then show ?thesis by (simp add: progress_def comp_def)
        next
          case False
          let ?tr1 = "tr\<lparr>backfillState := ?bs\<lparr>currentAccount := ?next\<rparr>\<rparr>"
          have run: "backfill_loop fuel env mx start used ?tr1 = (st, used', tr')"
            using Suc.prems(4) cond inb \<open>completed (progress tr ! ?c)\<close> False
            by (auto simp: progress_def Let_def)
          have p: "progress ?tr1 = progress tr" "fetched ?tr1 = fetched tr"
            by (simp_all add: progress_def)
          show ?thesis
            using Suc.IH [of ?tr1 used] Suc.prems(1-3) run p by simp
        qed
      next
        case False
        then have ci: "?c \<noteq> i" using Suc.prems(3) by auto
        obtain u1 tr1 where f: "backfill_fetch env used tr = (u1, tr1)"
          by (cases "backfill_fetch env used tr")
        have run: "backfill_loop fuel env mx start u1 tr1 = (st, used', tr')"
          using Suc.prems(4) cond inb False f by (auto simp: progress_def Let_def)
        note e = backfill_fetch_effect [OF f inb]
        have names: "map username (progress tr1) = map username (progress tr)" by (rule e(2))
        then have len: "length (progress tr1) = length (progress tr)" by (metis length_map)
        have same: "progress tr1 ! i = progress tr ! i" using ci e(3) [of i] by simp
        have ih: "take (length (fetched tr1)) (fetched tr') = fetched tr1 \<and>
           username (progress tr1 ! i) \<notin> set (drop (length (fetched tr1)) (fetched tr')) \<and>
           map username (progress tr') = map username (progress tr1) \<and>
           (completed (progress tr' ! i) \<or> (\<forall>j < length (progress tr'). \<not> completed (progress tr' ! j)))"
          using Suc.IH [of tr1 u1] Suc.prems(1-3) run names len same by simp
        have neq: "username (progress tr ! ?c) \<noteq> username (progress tr ! i)"
          using Suc.prems(1,2) inb ci by (simp add: nth_eq_iff_index_eq [symmetric] distinct_conv_nth)
        obtain new where new: "fetched tr' = fetched tr1 @ new"
          using ih by (metis append_take_drop_id)
        then have all: "fetched tr' = fetched tr @ username (progress tr ! ?c) # new"
          using e(1) by simp
        have "username (progress tr ! i) \<notin> set new" using ih new same by simp
        then show ?thesis using all neq ih names by simp
      qed
    qed
  qed
qed

lemma runSmartBackfill_loop:
  assumes "runSmartBackfill fuel env mx tr = (st, tr')"
  shows "tr' = tr \<or>
         (\<exists>used' tr''. backfill_loop fuel env mx (currentAccount (backfillState tr)) 0 tr = (st, used', tr'') \<and>
            fetched tr' = fetched tr'' \<and> progress tr' = progress tr'')"
proof (cases "backfill_loop fuel env mx (currentAccount (backfillState tr)) 0 tr")
  case (fields s u t)
  then show ?thesis
    using assms
    by (cases s) (auto simp: runSmartBackfill_def progress_def split: if_splits)
qed

section \<open>Facts about the examples\<close>

lemma limits_pro_streamRules:
  "pro_limits ''streamRules'' = Some \<lparr>requests = 20, windowMs = 900000\<rparr>"
  by (simp add: pro_limits_def)


lemma m_near_eq:
  "m_near = (new_manager pro_limits \<lparr>online = True, rate_limits = Some [(''streamRules'', 0) \<mapsto> 19]\<rparr> 0)
     \<lparr>rateLimitCache := [''streamRules'' \<mapsto>
         \<lparr>c_endpoint = ''streamRules'', c_windowStart = 0, c_count = 19, c_limit = 20,
          c_remaining = 1, c_resetTime = 900000, c_lastUpdated = 0\<rparr>]\<rparr>"
  by (simp add: m_near_def canMakeRequest_def Let_def new_manager_def pro_limits_def
        endpoint_key_def window_start_def getCurrentUsage_def select_usage_def)

section \<open>The claims\<close>

text \<open>
  C1 (as amended). \<open>recordRequest\<close> checks nothing, so the bound holds for the sequences
  in which every recording follows an admission check that returned true, with no
  other check or recording in between:
  for such a sequence of calls within one window (the store may fail and recover in
  between), the recorded count of the window is at most the configured limit after
  every prefix. In the drain loop, a request whose check returned true is called at
  once, with the recorded count below the limit; a request whose check returned false
  on a readable store is called after the loop has slept until the window's reset time.
\<close>

theorem C1_admitted_calls_keep_limit:
  assumes "limits m ep = Some l" and "0 < windowMs l"
  shows "(in_window l ws cs \<and> admitted_calls False m ep acc cs \<and>
          recorded_count (store m) (endpoint_key ep acc) ws \<le> requests l \<longrightarrow>
            recorded_count (store (run_calls m ep acc (take n cs))) (endpoint_key ep acc) ws
              \<le> requests l) \<and>
         (loop m = Admitting r \<and> endpoint r = ep \<and> accountId r = acc \<and>
          fst (canMakeRequest m (clock m) ep acc) \<longrightarrow>
            clock (admit m) = clock m \<and>
            events (admit m) = events m @ [Called (requestFn r)] \<and>
            recorded_count (store (admit m)) (endpoint_key ep acc) (window_start l (clock m))
              < requests l) \<and>
         (loop m = Admitting r \<and> endpoint r = ep \<and> accountId r = acc \<and> online (store m) \<and>
          \<not> fst (canMakeRequest m (clock m) ep acc) \<longrightarrow>
            clock (admit m) = window_start l (clock m) + windowMs l \<and>
            events (admit m) =
              events m @ [Slept (window_start l (clock m) + windowMs l - clock m),
                          Called (requestFn r)])"
proof -
  have a: "in_window l ws cs \<and> admitted_calls False m ep acc cs \<and>
          recorded_count (store m) (endpoint_key ep acc) ws \<le> requests l \<longrightarrow>
            recorded_count (store (run_calls m ep acc (take n cs))) (endpoint_key ep acc) ws
              \<le> requests l"
    using admitted_calls_bound [OF assms(1), of ws cs False acc n] by simp
  have b: "loop m = Admitting r \<and> endpoint r = ep \<and> accountId r = acc \<and>
          fst (canMakeRequest m (clock m) ep acc) \<longrightarrow>
            clock (admit m) = clock m \<and>
            events (admit m) = events m @ [Called (requestFn r)] \<and>
            recorded_count (store (admit m)) (endpoint_key ep acc) (window_start l (clock m))
              < requests l"
  proof
    assume h: "loop m = Admitting r \<and> endpoint r = ep \<and> accountId r = acc \<and>
          fst (canMakeRequest m (clock m) ep acc)"
    then have "clock (admit m) = clock m \<and> events (admit m) = events m @ [Called (requestFn r)]"
      using admit_allowed [of m r] by simp
    moreover have "recorded_count (store (admit m)) (endpoint_key ep acc) (window_start l (clock m))
              < requests l"
      using h assms(1) canMakeRequest_count [of m ep l "clock m" acc]
      by (simp add: admit_store)
    ultimately show "clock (admit m) = clock m \<and>
            events (admit m) = events m @ [Called (requestFn r)] \<and>
            recorded_count (store (admit m)) (endpoint_key ep acc) (window_start l (clock m))
              < requests l" by simp
  qed
  have c: "loop m = Admitting r \<and> endpoint r = ep \<and> accountId r = acc \<and> online (store m) \<and>
          \<not> fst (canMakeRequest m (clock m) ep acc) \<longrightarrow>
            clock (admit m) = window_start l (clock m) + windowMs l \<and>
            events (admit m) =
              events m @ [Slept (window_start l (clock m) + windowMs l - clock m),
                          Called (requestFn r)]"
    using admit_refused [of m r l] assms by auto
  show ?thesis using a b c by blast
qed

theorem C1_admitted_calls_keep_limit_witness:
  "in_window \<lparr>requests = 20, windowMs = 900000\<rparr> 0 checked_calls \<and>
   admitted_calls False m_fresh ''streamRules'' None checked_calls \<and>
   recorded_count (store (run_calls m_fresh ''streamRules'' None (take 11 checked_calls)))
     ''streamRules'' 0 \<le> 20 \<and>
   fst (canMakeRequest m_admitting 0 ''streamRules'' None) \<and>
   clock (admit m_admitting) = 0 \<and>
   \<not> fst (canMakeRequest m_admitting_full 5 ''streamRules'' None) \<and>
   clock (admit m_admitting_full) = 900000"
proof -
  have k: "endpoint_key ''streamRules'' None = ''streamRules''" by (simp add: endpoint_key_def)
  have l1: "limits m_fresh ''streamRules'' = Some \<lparr>requests = 20, windowMs = 900000\<rparr>"
    by (simp add: m_fresh_def new_manager_def limits_pro_streamRules)
  have l2: "limits m_admitting ''streamRules'' = Some \<lparr>requests = 20, windowMs = 900000\<rparr>"
    by (simp add: m_admitting_def m_fresh_def new_manager_def limits_pro_streamRules)
  have l3: "limits m_admitting_full ''streamRules'' = Some \<lparr>requests = 20, windowMs = 900000\<rparr>"
    by (simp add: m_admitting_full_def m_full_def new_manager_def limits_pro_streamRules)
  have w: "in_window \<lparr>requests = 20, windowMs = 900000\<rparr> 0 checked_calls"
    by (simp add: checked_calls_def window_start_def)
  have a: "admitted_calls False m_fresh ''streamRules'' None checked_calls"
    by code_simp
  have c0: "recorded_count (store m_fresh) ''streamRules'' 0 \<le> 20"
    by (simp add: m_fresh_def new_manager_def db_empty_def recorded_count_def)
  have yes: "fst (canMakeRequest m_admitting 0 ''streamRules'' None)"
    by code_simp
  have no: "\<not> fst (canMakeRequest m_admitting_full 5 ''streamRules'' None)"
    by code_simp
  have p1: "recorded_count (store (run_calls m_fresh ''streamRules'' None (take 11 checked_calls)))
     ''streamRules'' 0 \<le> 20"
    using C1_admitted_calls_keep_limit [of m_fresh "''streamRules''" "\<lparr>requests = 20, windowMs = 900000\<rparr>"
      0 checked_calls None 11] l1 w a c0 by (simp add: k)
  have p2: "clock (admit m_admitting) = 0"
    using C1_admitted_calls_keep_limit [of m_admitting "''streamRules''" "\<lparr>requests = 20, windowMs = 900000\<rparr>"
      0 "[]" None 0 req_rules] l2 yes
    by (simp add: k m_admitting_def m_fresh_def new_manager_def req_rules_def)
  have p3: "clock (admit m_admitting_full) = 900000"
    using C1_admitted_calls_keep_limit [of m_admitting_full "''streamRules''" "\<lparr>requests = 20, windowMs = 900000\<rparr>"
      0 "[]" None 0 req_rules] l3 no
    by (simp add: k m_admitting_full_def m_full_def new_manager_def req_rules_def window_start_def)
  show ?thesis using w a p1 yes p2 no p3 by simp
qed

text \<open>
  C1 as stated fails: 21 recordings in a row for \<open>streamRules\<close>, all in the window
  that starts at 0, leave a recorded count of 21 against the configured limit of 20.
\<close>

theorem C1_unchecked_records_exceed_limit:
  "limits m_fresh ''streamRules'' = Some \<lparr>requests = 20, windowMs = 900000\<rparr> \<and>
   in_window \<lparr>requests = 20, windowMs = 900000\<rparr> 0 (replicate 21 (0, RecordRequest None)) \<and>
   recorded_count (store (run_calls m_fresh ''streamRules'' None
      (replicate 21 (0, RecordRequest None)))) ''streamRules'' 0 = 21"
  by code_simp







text \<open>
  C4 (as amended). When a \<open>recordRequest\<close> call increments the durable counter, a cache
  entry exists for the key, and the response headers carry remaining and reset values
  that parse to non-zero integers, then the cached \<open>remaining\<close> and \<open>resetTime\<close> (reset
  times 1000) become the provider's values, and the cached \<open>limit\<close> too when the
  provider's limit parses to a non-zero integer. The cached count stays the local
  count, the durable counter is what it is without headers, and every later
  \<open>canMakeRequest\<close> returns what it returns without the headers: admission reads the
  durable count and the configured limit only.
\<close>

theorem C4_provider_headers_touch_cache_only:
  assumes "limits m ep = Some l"
      and "incrementUsage (store m) (endpoint_key ep acc) (window_start l t) = Inr db"
      and "rateLimitCache m (endpoint_key ep acc) = Some ce"
      and "x_rate_limit_remaining h = Some rem" and "rem \<noteq> 0"
      and "x_rate_limit_reset h = Some rst" and "rst \<noteq> 0"
  shows "map_option c_remaining (rateLimitCache (recordRequest m t ep acc (Some h)) (endpoint_key ep acc))
           = Some rem \<and>
         map_option c_resetTime (rateLimitCache (recordRequest m t ep acc (Some h)) (endpoint_key ep acc))
           = Some (rst * 1000) \<and>
         map_option c_limit (rateLimitCache (recordRequest m t ep acc (Some h)) (endpoint_key ep acc))
           = (case or_null (x_rate_limit_limit h) of
                None \<Rightarrow> Some (c_limit ce) | Some pl \<Rightarrow> Some pl) \<and>
         map_option c_count (rateLimitCache (recordRequest m t ep acc (Some h)) (endpoint_key ep acc))
           = Some (if c_windowStart ce = window_start l t then c_count ce + 1 else c_count ce) \<and>
         store (recordRequest m t ep acc (Some h)) = db \<and>
         store (recordRequest m t ep acc None) = db \<and>
         fst (canMakeRequest (recordRequest m t ep acc (Some h)) t' ep acc) =
           fst (canMakeRequest (recordRequest m t ep acc None) t' ep acc)"
proof -
  let ?ce0 = "if c_windowStart ce = window_start l t
                 then ce\<lparr>c_count := c_count ce + 1,
                         c_remaining := max 0 (requests l - (c_count ce + 1)),
                         c_lastUpdated := t\<rparr>
                 else ce"
  have c0: "rateLimitCache (recordRequest m t ep acc None) (endpoint_key ep acc) = Some ?ce0"
    using assms(1-3) by (rule recordRequest_cache_local)
  have c1: "rateLimitCache (recordRequest m t ep acc (Some h)) (endpoint_key ep acc) =
           Some (?ce0\<lparr>c_remaining := rem, c_resetTime := rst * 1000,
                     c_limit := (case or_null (x_rate_limit_limit h) of
                                   None \<Rightarrow> c_limit ?ce0 | Some pl \<Rightarrow> pl),
                     c_lastUpdated := t\<rparr>)"
    using assms c0 by (rule recordRequest_cache_headers)
  have s: "store (recordRequest m t ep acc (Some h)) = db" "store (recordRequest m t ep acc None) = db"
    using assms(1,2) by (simp_all add: store_recordRequest)
  have d: "fst (canMakeRequest (recordRequest m t ep acc (Some h)) t' ep acc) =
           fst (canMakeRequest (recordRequest m t ep acc None) t' ep acc)"
    by (rule canMakeRequest_decision) (simp_all add: s)
  show ?thesis using c1 s d by (simp split: option.splits)
qed

theorem C4_provider_headers_touch_cache_only_witness:
  "limits m_near ''streamRules'' = Some \<lparr>requests = 20, windowMs = 900000\<rparr> \<and>
   x_rate_limit_remaining provider_headers = Some 10 \<and>
   x_rate_limit_reset provider_headers = Some 1800 \<and>
   map_option c_remaining (rateLimitCache
      (recordRequest m_near 1 ''streamRules'' None (Some provider_headers)) ''streamRules'') = Some 10 \<and>
   map_option c_resetTime (rateLimitCache
      (recordRequest m_near 1 ''streamRules'' None (Some provider_headers)) ''streamRules'') = Some 1800000 \<and>
   map_option c_limit (rateLimitCache
      (recordRequest m_near 1 ''streamRules'' None (Some provider_headers)) ''streamRules'') = Some 25 \<and>
   map_option c_count (rateLimitCache
      (recordRequest m_near 1 ''streamRules'' None (Some provider_headers)) ''streamRules'') = Some 20 \<and>
   fst (canMakeRequest (recordRequest m_near 1 ''streamRules'' None (Some provider_headers))
          2 ''streamRules'' None) =
   fst (canMakeRequest (recordRequest m_near 1 ''streamRules'' None None) 2 ''streamRules'' None)"
proof -
  have k: "endpoint_key ''streamRules'' None = ''streamRules''" by (simp add: endpoint_key_def)
  have l: "limits m_near ''streamRules'' = Some \<lparr>requests = 20, windowMs = 900000\<rparr>"
    by (simp add: m_near_eq new_manager_def pro_limits_def)
  have i: "incrementUsage (store m_near) (endpoint_key ''streamRules'' None)
             (window_start \<lparr>requests = 20, windowMs = 900000\<rparr> 1) =
           Inr \<lparr>online = True, rate_limits = Some [(''streamRules'', 0) \<mapsto> 20]\<rparr>"
    by (simp add: m_near_eq new_manager_def incrementUsage_def k window_start_def)
  have c: "rateLimitCache m_near (endpoint_key ''streamRules'' None) =
       Some \<lparr>c_endpoint = ''streamRules'', c_windowStart = 0, c_count = 19, c_limit = 20,
          c_remaining = 1, c_resetTime = 900000, c_lastUpdated = 0\<rparr>"
    by (simp add: m_near_eq k)
  have h: "x_rate_limit_remaining provider_headers = Some 10" "(10::int) \<noteq> 0"
    "x_rate_limit_reset provider_headers = Some 1800" "(1800::int) \<noteq> 0"
    by (simp_all add: provider_headers_def)
  show ?thesis
    using C4_provider_headers_touch_cache_only [OF l i c h, of 2] l h
    by (simp add: k window_start_def or_null_def provider_headers_def)
qed

text \<open>
  C4 as stated fails. With 19 requests recorded against the limit of 20, a recording
  whose headers report 10 remaining of 25 leaves the cached count at the local 20 (the
  provider's figure is 15), and the next admission check returns false although the
  provider reports quota left; that check also puts the configured limit 20 back into
  the cache.
\<close>

theorem C4_admission_ignores_provider_headers:
  "spec_provider_count provider_headers = Some 15 \<and>
   spec_provider_admits provider_headers \<and>
   map_option c_count (rateLimitCache
      (recordRequest m_near 1 ''streamRules'' None (Some provider_headers)) ''streamRules'') = Some 20 \<and>
   fst (canMakeRequest (recordRequest m_near 1 ''streamRules'' None (Some provider_headers))
          2 ''streamRules'' None) = False \<and>
   map_option c_limit (rateLimitCache
      (snd (canMakeRequest (recordRequest m_near 1 ''streamRules'' None (Some provider_headers))
          2 ''streamRules'' None)) ''streamRules'') = Some 20"
  by code_simp

text \<open>
  C5. The window start is \<open>floor(now / windowMs) * windowMs\<close> and the count is read from
  the row keyed by it. So when nothing has been recorded for this key beyond the
  window of time \<open>t\<close>, whatever the counts up to that window are, an admission check at
  a time \<open>t'\<close> past the end of that window reads count 0 for the new window and admits
  the request.
\<close>

theorem C5_window_rollover:
  assumes "limits m ep = Some l"
      and "0 < windowMs l"
      and "online (store m)"
      and "\<forall>w. window_start l t < w \<longrightarrow> recorded_count (store m) (endpoint_key ep acc) w = 0"
      and "window_start l t + windowMs l \<le> t'"
  shows "fst (canMakeRequest m t' ep acc) = (0 < requests l) \<and>
         map_option c_count (rateLimitCache (snd (canMakeRequest m t' ep acc)) (endpoint_key ep acc)) = Some 0 \<and>
         map_option c_windowStart (rateLimitCache (snd (canMakeRequest m t' ep acc)) (endpoint_key ep acc))
           = Some (window_start l t') \<and>
         window_start l t' = (t' div windowMs l) * windowMs l \<and>
         window_start l t < window_start l t'"
proof -
  have later: "window_start l t + windowMs l \<le> window_start l t'"
    using assms(2,5) by (rule window_start_after)
  then have lt: "window_start l t < window_start l t'"
    using assms(2) by linarith
  then have zero: "recorded_count (store m) (endpoint_key ep acc) (window_start l t') = 0"
    using assms(4) by simp
  obtain db where "canMakeRequest m t' ep acc =
     (recorded_count (store m) (endpoint_key ep acc) (window_start l t') < requests l,
      m\<lparr>store := db,
        rateLimitCache := (rateLimitCache m)(endpoint_key ep acc \<mapsto>
          \<lparr>c_endpoint = ep, c_windowStart = window_start l t',
           c_count = recorded_count (store m) (endpoint_key ep acc) (window_start l t'),
           c_limit = requests l,
           c_remaining = requests l - recorded_count (store m) (endpoint_key ep acc) (window_start l t'),
           c_resetTime = window_start l t' + windowMs l, c_lastUpdated = t'\<rparr>)\<rparr>)"
    using canMakeRequest_online [OF assms(1,3)] by blast
  then have "fst (canMakeRequest m t' ep acc) = (0 < requests l) \<and>
         map_option c_count (rateLimitCache (snd (canMakeRequest m t' ep acc)) (endpoint_key ep acc)) = Some 0 \<and>
         map_option c_windowStart (rateLimitCache (snd (canMakeRequest m t' ep acc)) (endpoint_key ep acc))
           = Some (window_start l t')"
    using zero by simp
  moreover have "window_start l t' = (t' div windowMs l) * windowMs l"
    by (simp add: window_start_def)
  ultimately show ?thesis using lt by blast
qed

theorem C5_window_rollover_witness:
  "limits m_roll ''userTimeline'' = Some \<lparr>requests = 280, windowMs = 900000\<rparr> \<and>
   online (store m_roll) \<and>
   recorded_count (store m_roll) ''userTimeline'' 0 = 279 \<and>
   window_start \<lparr>requests = 280, windowMs = 900000\<rparr> 899999 + 900000 \<le> 900000 \<and>
   map_option c_count (rateLimitCache (snd (canMakeRequest m_roll 899999 ''userTimeline'' None)) ''userTimeline'') = Some 279 \<and>
   fst (canMakeRequest m_roll 900000 ''userTimeline'' None) = True \<and>
   map_option c_count (rateLimitCache (snd (canMakeRequest m_roll 900000 ''userTimeline'' None)) ''userTimeline'') = Some 0"
proof -
  have l: "limits m_roll ''userTimeline'' = Some \<lparr>requests = 280, windowMs = 900000\<rparr>"
    by (simp add: m_roll_def new_manager_def pro_limits_def)
  have k: "endpoint_key ''userTimeline'' None = ''userTimeline''"
    by (simp add: endpoint_key_def)
  have s: "online (store m_roll)" "recorded_count (store m_roll) ''userTimeline'' 0 = 279"
    by (simp_all add: m_roll_def new_manager_def recorded_count_def)
  have z: "\<forall>w. window_start \<lparr>requests = 280, windowMs = 900000\<rparr> 899999 < w \<longrightarrow>
             recorded_count (store m_roll) (endpoint_key ''userTimeline'' None) w = 0"
    by (simp add: m_roll_def new_manager_def recorded_count_def window_start_def k)
  have w: "window_start \<lparr>requests = 280, windowMs = 900000\<rparr> 899999 = 0"
    by (simp add: window_start_def)
  have "fst (canMakeRequest m_roll 900000 ''userTimeline'' None) = (0 < requests \<lparr>requests = 280, windowMs = 900000\<rparr>) \<and>
        map_option c_count (rateLimitCache (snd (canMakeRequest m_roll 900000 ''userTimeline'' None))
           (endpoint_key ''userTimeline'' None)) = Some 0"
    using C5_window_rollover [of m_roll "''userTimeline''" "\<lparr>requests = 280, windowMs = 900000\<rparr>"
        899999 None 900000] l s z w
    by simp
  moreover have "map_option c_count (rateLimitCache (snd (canMakeRequest m_roll 899999 ''userTimeline'' None)) ''userTimeline'') = Some 279"
    by (simp add: canMakeRequest_def Let_def getCurrentUsage_def select_usage_def k
          m_roll_def new_manager_def pro_limits_def window_start_def)
  ultimately show ?thesis using l s w by (simp add: k)
qed

text \<open>
  C6. For a metered endpoint, when \<open>getCurrentUsage\<close> throws during an admission check,
  \<open>canMakeRequest\<close> returns false and leaves the cache as it was. (\<open>getCurrentUsage\<close>
  itself turns a missing table into a fresh table and count 0; it throws for every
  other failure of the store.)
\<close>

theorem C6_fail_closed:
  assumes "limits m ep = Some l"
      and "fst (getCurrentUsage (store m) (endpoint_key ep acc) (window_start l t)) = Inl e"
  shows "fst (canMakeRequest m t ep acc) = False \<and>
         rateLimitCache (snd (canMakeRequest m t ep acc)) = rateLimitCache m"
  using assms by (auto simp: canMakeRequest_def Let_def split: prod.splits sum.splits)

theorem C6_fail_closed_witness:
  "limits m_offline ''userTimeline'' = Some \<lparr>requests = 280, windowMs = 900000\<rparr> \<and>
   fst (getCurrentUsage (store m_offline) (endpoint_key ''userTimeline'' (Some ''cz_binance''))
          (window_start \<lparr>requests = 280, windowMs = 900000\<rparr> 1000)) = Inl ER_OTHER \<and>
   fst (canMakeRequest m_offline 1000 ''userTimeline'' (Some ''cz_binance'')) = False"
proof -
  have l: "limits m_offline ''userTimeline'' = Some \<lparr>requests = 280, windowMs = 900000\<rparr>"
    by (simp add: m_offline_def new_manager_def pro_limits_def)
  have g: "fst (getCurrentUsage (store m_offline) (endpoint_key ''userTimeline'' (Some ''cz_binance''))
          (window_start \<lparr>requests = 280, windowMs = 900000\<rparr> 1000)) = Inl ER_OTHER"
    by (simp add: m_offline_def new_manager_def db_offline_def getCurrentUsage_def select_usage_def)
  show ?thesis using C6_fail_closed [OF l g] l g by simp
qed

text \<open>
  C7. Accounts are the entries of \<open>accountProgress\<close>, told apart by their user names.
  When the fetch for the current account returns an empty result, the pass sets that
  account's \<open>completed\<close> to true, and in the rest of the run no fetch is issued for it.
  In every run of the loop, and of \<open>runSmartBackfill\<close>, that starts with an account
  completed, no fetch is issued for that account, and at the end the account is still
  completed unless the run has ended with the reset that sets \<open>completed\<close> to false
  for all accounts.
\<close>

theorem C7_completed_account_not_fetched:
  assumes "distinct (map username (progress tr))"
  shows "(of_nat used < mx \<and> isRunning tr \<and> currentAccount (backfillState tr) = c \<and>
          c < length (progress tr) \<and> \<not> completed (progress tr ! c) \<and>
          fetchLatestTweets (b_api (env (length (fetched tr)))) = Returned [] \<longrightarrow>
            completed (progress (snd (backfill_fetch env used tr)) ! c) \<and>
            take (Suc (length (fetched tr)))
                 (fetched (snd (snd (backfill_loop (Suc fuel) env mx start used tr)))) =
              fetched tr @ [username (progress tr ! c)] \<and>
            username (progress tr ! c) \<notin>
              set (drop (Suc (length (fetched tr)))
                     (fetched (snd (snd (backfill_loop (Suc fuel) env mx start used tr))))) \<and>
            (completed (progress (snd (snd (backfill_loop (Suc fuel) env mx start used tr))) ! c) \<or>
             (\<forall>j < length (progress tr).
                 \<not> completed (progress (snd (snd (backfill_loop (Suc fuel) env mx start used tr))) ! j)))) \<and>
         (i < length (progress tr) \<and> completed (progress tr ! i) \<longrightarrow>
            take (length (fetched tr)) (fetched (snd (snd (backfill_loop fuel env mx start used tr)))) =
              fetched tr \<and>
            username (progress tr ! i) \<notin>
              set (drop (length (fetched tr))
                     (fetched (snd (snd (backfill_loop fuel env mx start used tr))))) \<and>
            (completed (progress (snd (snd (backfill_loop fuel env mx start used tr))) ! i) \<or>
             (\<forall>j < length (progress tr).
                 \<not> completed (progress (snd (snd (backfill_loop fuel env mx start used tr))) ! j))) \<and>
            take (length (fetched tr)) (fetched (snd (runSmartBackfill fuel env mx tr))) = fetched tr \<and>
            username (progress tr ! i) \<notin>
              set (drop (length (fetched tr)) (fetched (snd (runSmartBackfill fuel env mx tr)))) \<and>
            (completed (progress (snd (runSmartBackfill fuel env mx tr)) ! i) \<or>
             (\<forall>j < length (progress tr).
                 \<not> completed (progress (snd (runSmartBackfill fuel env mx tr)) ! j))))"
proof -
  have B: "take (length (fetched t0)) (fetched t1) = fetched t0 \<and>
           username (progress t0 ! k) \<notin> set (drop (length (fetched t0)) (fetched t1)) \<and>
           length (progress t1) = length (progress t0) \<and>
           (completed (progress t1 ! k) \<or> (\<forall>j < length (progress t0). \<not> completed (progress t1 ! j)))"
    if "distinct (map username (progress t0))" "k < length (progress t0)" "completed (progress t0 ! k)"
       "backfill_loop f env mx sa u t0 = (s1, u1, t1)" for t0 t1 k f u s1 u1 sa
  proof -
    note r = backfill_loop_skips_completed [OF that]
    have "length (progress t1) = length (progress t0)" using r by (metis length_map)
    then show ?thesis using r by simp
  qed
  have part1: "completed (progress (snd (backfill_fetch env used tr)) ! c) \<and>
            take (Suc (length (fetched tr)))
                 (fetched (snd (snd (backfill_loop (Suc fuel) env mx start used tr)))) =
              fetched tr @ [username (progress tr ! c)] \<and>
            username (progress tr ! c) \<notin>
              set (drop (Suc (length (fetched tr)))
                     (fetched (snd (snd (backfill_loop (Suc fuel) env mx start used tr))))) \<and>
            (completed (progress (snd (snd (backfill_loop (Suc fuel) env mx start used tr))) ! c) \<or>
             (\<forall>j < length (progress tr).
                 \<not> completed (progress (snd (snd (backfill_loop (Suc fuel) env mx start used tr))) ! j)))"
    if h: "of_nat used < mx \<and> isRunning tr \<and> currentAccount (backfillState tr) = c \<and>
          c < length (progress tr) \<and> \<not> completed (progress tr ! c) \<and>
          fetchLatestTweets (b_api (env (length (fetched tr)))) = Returned []"
  proof -
    obtain u1 tr1 where f: "backfill_fetch env used tr = (u1, tr1)"
      by (cases "backfill_fetch env used tr")
    have inb: "currentAccount (backfillState tr) < length (progress tr)" using h by simp
    note e = backfill_fetch_effect [OF f inb]
    have cmp: "completed (progress tr1 ! c)" using e(4) h by simp
    have names: "map username (progress tr1) = map username (progress tr)" by (rule e(2))
    then have len: "length (progress tr1) = length (progress tr)" by (metis length_map)
    have name: "username (progress tr1 ! c) = username (progress tr ! c)"
      using names h len by (metis nth_map)
    obtain s2 u2 tr2 where run1: "backfill_loop fuel env mx start u1 tr1 = (s2, u2, tr2)"
      by (cases "backfill_loop fuel env mx start u1 tr1")
    have run: "backfill_loop (Suc fuel) env mx start used tr = (s2, u2, tr2)"
      using h f run1 by (simp add: progress_def Let_def)
    have d1: "distinct (map username (progress tr1))" using assms names by simp
    have c1: "c < length (progress tr1)" using h len by simp
    note r = B [OF d1 c1 cmp run1]
    have ft1: "fetched tr1 = fetched tr @ [username (progress tr ! c)]" using e(1) h by simp
    then have l1: "length (fetched tr1) = Suc (length (fetched tr))" by simp
    show ?thesis using r f run name len ft1 l1 cmp by simp
  qed
  have part2: "take (length (fetched tr)) (fetched (snd (snd (backfill_loop fuel env mx start used tr)))) =
              fetched tr \<and>
            username (progress tr ! i) \<notin>
              set (drop (length (fetched tr))
                     (fetched (snd (snd (backfill_loop fuel env mx start used tr))))) \<and>
            (completed (progress (snd (snd (backfill_loop fuel env mx start used tr))) ! i) \<or>
             (\<forall>j < length (progress tr).
                 \<not> completed (progress (snd (snd (backfill_loop fuel env mx start used tr))) ! j)))"
    if h: "i < length (progress tr) \<and> completed (progress tr ! i)" for start used
  proof -
    obtain s2 u2 tr2 where run: "backfill_loop fuel env mx start used tr = (s2, u2, tr2)"
      by (cases "backfill_loop fuel env mx start used tr")
    show ?thesis using B [OF assms _ _ run, of i] h run by simp
  qed
  have part3: "take (length (fetched tr)) (fetched (snd (runSmartBackfill fuel env mx tr))) = fetched tr \<and>
            username (progress tr ! i) \<notin>
              set (drop (length (fetched tr)) (fetched (snd (runSmartBackfill fuel env mx tr)))) \<and>
            (completed (progress (snd (runSmartBackfill fuel env mx tr)) ! i) \<or>
             (\<forall>j < length (progress tr).
                 \<not> completed (progress (snd (runSmartBackfill fuel env mx tr)) ! j)))"
    if h: "i < length (progress tr) \<and> completed (progress tr ! i)"
  proof -
    obtain s2 tr2 where run: "runSmartBackfill fuel env mx tr = (s2, tr2)"
      by (cases "runSmartBackfill fuel env mx tr")
    from runSmartBackfill_loop [OF run] show ?thesis
    proof
      assume "tr2 = tr"
      then show ?thesis using run h by simp
    next
      assume "\<exists>used' tr''. backfill_loop fuel env mx (currentAccount (backfillState tr)) 0 tr = (s2, used', tr'') \<and>
            fetched tr2 = fetched tr'' \<and> progress tr2 = progress tr''"
      then obtain u3 tr3 where l: "backfill_loop fuel env mx (currentAccount (backfillState tr)) 0 tr = (s2, u3, tr3)"
        and eq: "fetched tr2 = fetched tr3" "progress tr2 = progress tr3" by blast
      show ?thesis using part2 [OF h, of "currentAccount (backfillState tr)" 0] l eq run by simp
    qed
  qed
  show ?thesis using part1 part2 part3 by blast
qed

theorem C7_completed_account_not_fetched_witness:
  "distinct (map username (progress tr_backfill)) \<and>
   currentAccount (backfillState tr_backfill) = 0 \<and>
   \<not> completed (progress tr_backfill ! 0) \<and>
   fetchLatestTweets (b_api (env_backfill (length (fetched tr_backfill)))) = Returned [] \<and>
   completed (progress (snd (backfill_fetch env_backfill 0 tr_backfill)) ! 0) \<and>
   completed (progress tr_backfill ! 1) \<and>
   fetched (snd (runSmartBackfill 10 env_backfill 5 tr_backfill)) =
     [''cz_binance'', ''ShockedJS'', ''ShockedJS''] \<and>
   ''CookerFlips'' \<notin> set (fetched (snd (runSmartBackfill 10 env_backfill 5 tr_backfill))) \<and>
   ''cz_binance'' \<notin> set (drop 1 (fetched (snd (snd (backfill_loop 10 env_backfill 5 0 0 tr_backfill)))))"
proof -
  have d: "distinct (map username (progress tr_backfill))"
    by (simp add: progress_def tr_backfill_def acct_def)
  have p: "progress tr_backfill = [acct ''cz_binance'' False, acct ''CookerFlips'' True, acct ''ShockedJS'' False]"
    "fetched tr_backfill = []" "currentAccount (backfillState tr_backfill) = 0" "isRunning tr_backfill"
    by (simp_all add: progress_def tr_backfill_def)
  have e: "fetchLatestTweets (b_api (env_backfill 0)) = Returned []"
    by (simp add: env_backfill_def fetchLatestTweets_def)
  have r: "fetched (snd (runSmartBackfill 10 env_backfill 5 tr_backfill)) =
     [''cz_binance'', ''ShockedJS'', ''ShockedJS'']"
    by code_simp
  have 1: "completed (progress (snd (backfill_fetch env_backfill 0 tr_backfill)) ! 0) \<and>
      ''cz_binance'' \<notin> set (drop 1 (fetched (snd (snd (backfill_loop 10 env_backfill 5 0 0 tr_backfill)))))"
    using C7_completed_account_not_fetched [OF d, where used=0 and mx=5 and c=0 and env=env_backfill and fuel=9 and start=0 and i=1] p e
    by (simp add: acct_def)
  have 2: "''CookerFlips'' \<notin> set (fetched (snd (runSmartBackfill 10 env_backfill 5 tr_backfill)))"
    using C7_completed_account_not_fetched [OF d, where used=0 and mx=5 and c=0 and env=env_backfill and fuel=10 and start=0 and i=1] p
    by (simp add: acct_def)
  show ?thesis using d p e r 1 2 by (simp add: acct_def)
qed









end
